theory Spec2Isabelle
  imports Main
begin

section \<open>The event emitter of src/index.ts\<close>

text \<open>
  The class \<^verbatim>\<open>EventEmitter\<close> keeps one private field,
  \<^verbatim>\<open>listeners: Map<Key, Set<Listener>>\<close>. Its methods create closures that
  capture each other (the adapter of \<^verbatim>\<open>once\<close> captures its own unsubscribe
  function), mutate \<^verbatim>\<open>Set\<close> objects that an enumeration in progress may still
  be walking, settle promises and start timers. All of that is made explicit here:
  function objects, sets, promises and timers live in stores indexed by a number, the
  number being the identity of the object.
\<close>

subsection \<open>Values\<close>

type_synonym event = string

text \<open>Payloads. \<^verbatim>\<open>undefined\<close> is a payload like any other (event \<^verbatim>\<open>third\<close>
  of the tests) and is what \<^verbatim>\<open>takeTimeout\<close> rejects with.\<close>

datatype val = Undefined | Num int | Text string

text \<open>
  A listener is a function object, and \<^verbatim>\<open>Set\<close> compares function objects by
  identity. \<open>User k\<close> is the \<open>k\<close>-th function of the caller's program;
  \<open>Closure c\<close> is the \<open>c\<close>-th closure the emitter itself has created.
\<close>

datatype listener = User nat | Closure nat

text \<open>The closures created inside the class, with the variables they capture.\<close>

datatype closure =
    OnceAdapter event listener
      \<comment> \<open>\<^verbatim>\<open>(value) => { listener(value); unsubscribe() }\<close> of \<^verbatim>\<open>once\<close>\<close>
  | Resolver nat
      \<comment> \<open>\<^verbatim>\<open>resolve\<close> of \<^verbatim>\<open>createDeferred\<close>, passed as a listener by \<^verbatim>\<open>take\<close>\<close>
  | TimeoutListener nat nat
      \<comment> \<open>\<^verbatim>\<open>(value) => { clearTimeout(id); resolve(value) }\<close>: timer, promise\<close>
  | SuccessListener event listener nat
      \<comment> \<open>\<^verbatim>\<open>(result) => { unsubscribeFailure(); resolve(result) }\<close>\<close>
  | FailureListener event listener nat
      \<comment> \<open>\<^verbatim>\<open>(error) => { unsubscribeSuccess(); reject(error) }\<close>\<close>

text \<open>The function returned by \<^verbatim>\<open>on\<close> captures \<^verbatim>\<open>event\<close> and \<^verbatim>\<open>listener\<close>.\<close>

type_synonym Unsubscribe = "event \<times> listener"

datatype settlement = Pending | Fulfilled val | Rejected val

text \<open>A pending \<^verbatim>\<open>setTimeout\<close> of \<^verbatim>\<open>takeTimeout\<close>: the delay, and what its callback
  \<^verbatim>\<open>() => { unsubscribe(); reject(undefined) }\<close> captures.\<close>

record timer =
  delay :: nat
  timer_unsubscribe :: Unsubscribe
  timer_promise :: nat

record state =
  listeners :: "event \<Rightarrow> nat option"
  set_objs :: "nat \<Rightarrow> listener option list"
  next_set :: nat
  closures :: "nat \<Rightarrow> closure option"
  next_closure :: nat
  promises :: "nat \<Rightarrow> settlement option"
  next_promise :: nat
  timers :: "nat \<Rightarrow> timer option"
  next_timer :: nat
  calls :: "(nat \<times> val) list"

text \<open>\<open>calls\<close> records every call of a user function with its argument, in order:
  it is what the \<^verbatim>\<open>jest.fn()\<close> mocks of the tests observe.\<close>

definition new_emitter :: state where
  "new_emitter = \<lparr> listeners = (\<lambda>_. None), set_objs = (\<lambda>_. []), next_set = 0,
     closures = (\<lambda>_. None), next_closure = 0,
     promises = (\<lambda>_. None), next_promise = 0,
     timers = (\<lambda>_. None), next_timer = 0, calls = [] \<rparr>"

subsection \<open>The Set of ECMAScript\<close>

text \<open>
  A \<^verbatim>\<open>Set\<close> is the list [[SetData]] in insertion order. \<^verbatim>\<open>add\<close> appends a value
  that is not there yet; \<^verbatim>\<open>delete\<close> replaces the value by the marker \<^verbatim>\<open>empty\<close>
  (\<open>None\<close>) and leaves the positions of the others alone; \<^verbatim>\<open>forEach\<close> walks
  the list by index and reads its length again after every callback.
\<close>

definition set_add :: "listener \<Rightarrow> listener option list \<Rightarrow> listener option list" where
  "set_add l xs = (if Some l \<in> set xs then xs else xs @ [Some l])"

fun set_delete :: "listener \<Rightarrow> listener option list \<Rightarrow> listener option list" where
  "set_delete l [] = []"
| "set_delete l (x # xs) = (if x = Some l then None # xs else x # set_delete l xs)"

subsection \<open>Registration\<close>

definition unsubscribe :: "Unsubscribe \<Rightarrow> state \<Rightarrow> state" where
  "unsubscribe h st =
     (case listeners st (fst h) of
        None \<Rightarrow> st
      | Some a \<Rightarrow> st\<lparr>set_objs := (set_objs st)(a := set_delete (snd h) (set_objs st a))\<rparr>)"

definition on :: "event \<Rightarrow> listener \<Rightarrow> state \<Rightarrow> Unsubscribe \<times> state" where
  "on e l st =
     (let st1 = (if listeners st e = None
                 then st\<lparr>listeners := (listeners st)(e \<mapsto> next_set st),
                         set_objs := (set_objs st)(next_set st := []),
                         next_set := Suc (next_set st)\<rparr>
                 else st);
          st2 = (case listeners st1 e of
                   None \<Rightarrow> st1
                 | Some a \<Rightarrow> st1\<lparr>set_objs := (set_objs st1)(a := set_add l (set_objs st1 a))\<rparr>)
      in ((e, l), st2))"

definition new_closure :: "closure \<Rightarrow> state \<Rightarrow> listener \<times> state" where
  "new_closure c st =
     (Closure (next_closure st),
      st\<lparr>closures := (closures st)(next_closure st \<mapsto> c),
         next_closure := Suc (next_closure st)\<rparr>)"

definition once :: "event \<Rightarrow> listener \<Rightarrow> state \<Rightarrow> Unsubscribe \<times> state" where
  "once e l st = (case new_closure (OnceAdapter e l) st of (adapter, st1) \<Rightarrow> on e adapter st1)"

definition off :: "event \<Rightarrow> state \<Rightarrow> state" where
  "off e st = st\<lparr>listeners := (listeners st)(e := None)\<rparr>"

subsection \<open>Promises and timers\<close>

definition resolve :: "nat \<Rightarrow> val \<Rightarrow> state \<Rightarrow> state" where
  "resolve p v st =
     (if promises st p = Some Pending then st\<lparr>promises := (promises st)(p \<mapsto> Fulfilled v)\<rparr>
      else st)"

definition reject :: "nat \<Rightarrow> val \<Rightarrow> state \<Rightarrow> state" where
  "reject p v st =
     (if promises st p = Some Pending then st\<lparr>promises := (promises st)(p \<mapsto> Rejected v)\<rparr>
      else st)"

definition new_promise :: "state \<Rightarrow> nat \<times> state" where
  "new_promise st =
     (next_promise st,
      st\<lparr>promises := (promises st)(next_promise st \<mapsto> Pending),
         next_promise := Suc (next_promise st)\<rparr>)"

text \<open>\<^verbatim>\<open>createDeferred\<close> returns the promise with its \<^verbatim>\<open>resolve\<close> as a function
  object; \<^verbatim>\<open>reject\<close> is only ever called, never stored, and is the operation
  \<open>reject\<close> above.\<close>

definition createDeferred :: "state \<Rightarrow> (listener \<times> nat) \<times> state" where
  "createDeferred st =
     (case new_promise st of (p, st1) \<Rightarrow>
        (case new_closure (Resolver p) st1 of (r, st2) \<Rightarrow> ((r, p), st2)))"

definition clearTimeout :: "nat \<Rightarrow> state \<Rightarrow> state" where
  "clearTimeout t st = st\<lparr>timers := (timers st)(t := None)\<rparr>"

text \<open>The method \<^verbatim>\<open>take\<close>; the name \<open>take\<close> is the list function's.\<close>

definition take_event :: "event \<Rightarrow> state \<Rightarrow> nat \<times> state" where
  "take_event e st =
     (case createDeferred st of ((r, p), st1) \<Rightarrow> (p, snd (once e r st1)))"

text \<open>
  In \<^verbatim>\<open>takeTimeout\<close> the timer is started before \<^verbatim>\<open>once\<close> is called, and its
  callback captures the variable \<^verbatim>\<open>unsubscribe\<close> that \<^verbatim>\<open>once\<close> binds afterwards.
  Nothing runs between the two statements, so the model calls \<^verbatim>\<open>once\<close> first and
  stores the timer with the handle it returned; the timer's identifier is the one that
  the listener has captured.
\<close>

definition takeTimeout :: "event \<Rightarrow> nat \<Rightarrow> state \<Rightarrow> nat \<times> state" where
  "takeTimeout e ms st =
     (case createDeferred st of ((r, p), st1) \<Rightarrow>
        (let t = next_timer st1 in
         case new_closure (TimeoutListener t p) st1 of (l, st2) \<Rightarrow>
           (case once e l st2 of (u, st3) \<Rightarrow>
              (p, st3\<lparr>timers := (timers st3)(t \<mapsto> \<lparr>delay = ms, timer_unsubscribe = u,
                                                       timer_promise = p\<rparr>),
                      next_timer := Suc t\<rparr>))))"

text \<open>The host runs the callback of timer \<open>t\<close>, if it is still pending. Whether
  that happens before or after an emission is the order in which \<open>timer_fires\<close> and
  \<open>emit\<close> are applied; the delay itself is only recorded.\<close>

definition timer_fires :: "nat \<Rightarrow> state \<Rightarrow> state" where
  "timer_fires t st =
     (case timers st t of
        None \<Rightarrow> st
      | Some tm \<Rightarrow>
          reject (timer_promise tm) Undefined
            (unsubscribe (timer_unsubscribe tm) (st\<lparr>timers := (timers st)(t := None)\<rparr>)))"

text \<open>
  In \<^verbatim>\<open>takeEither\<close> the success listener captures the variable
  \<^verbatim>\<open>unsubscribeFailure\<close>, which is bound two closures later: the closures are
  created in the order success listener, its adapter, failure listener, its adapter.
\<close>

definition takeEither :: "event \<Rightarrow> event \<Rightarrow> state \<Rightarrow> nat \<times> state" where
  "takeEither success failure st =
     (case new_promise st of (p, st1) \<Rightarrow>
        (let n = next_closure st1 in
         case new_closure (SuccessListener failure (Closure (n + 3)) p) st1 of (ls, st2) \<Rightarrow>
           (case once success ls st2 of (unsubscribeSuccess, st3) \<Rightarrow>
              (case new_closure (FailureListener (fst unsubscribeSuccess)
                                   (snd unsubscribeSuccess) p) st3 of (lf, st4) \<Rightarrow>
                 (p, snd (once failure lf st4))))))"

subsection \<open>Emission\<close>

text \<open>
  What a user function does is given by the caller's program: the calls it makes on the
  emitter when it is called with a payload, which may depend on the calls of user
  functions made so far.
\<close>

datatype cmd =
    On event listener
  | Once event listener
  | Take event
  | TakeTimeout event nat
  | TakeEither event event
  | Emit event val
  | Off event
  | Unsub event listener

type_synonym program = "(nat \<times> val) list \<Rightarrow> nat \<Rightarrow> val \<Rightarrow> cmd list"

text \<open>
  Listeners may emit, so \<^verbatim>\<open>emit\<close> may recurse without end (JavaScript then throws
  a \<^verbatim>\<open>RangeError\<close>), and a listener that keeps adding listeners keeps
  \<^verbatim>\<open>forEach\<close> going. The first argument bounds the depth of the computation;
  \<open>None\<close> means that the bound was not enough.
\<close>

text \<open>The calls that do not emit. An \<open>Emit\<close> is run by the interpreter below,
  which never passes one to \<open>exec\<close>.\<close>

fun exec :: "cmd \<Rightarrow> state \<Rightarrow> state" where
  "exec (On e l) st = snd (on e l st)"
| "exec (Once e l) st = snd (once e l st)"
| "exec (Take e) st = snd (take_event e st)"
| "exec (TakeTimeout e ms) st = snd (takeTimeout e ms st)"
| "exec (TakeEither s f) st = snd (takeEither s f st)"
| "exec (Emit e v) st = st"
| "exec (Off e) st = off e st"
| "exec (Unsub e l) st = unsubscribe (e, l) st"

text \<open>The four mutually recursive procedures, as one function of the procedure to run:
  \<^verbatim>\<open>emit\<close>, the \<^verbatim>\<open>forEach\<close> of a set object from an index on, the call of a
  function object, and the body of a user function.\<close>

datatype frame =
    EmitF event val
  | ForEachF nat nat val
  | CallF listener val
  | RunF "cmd list"

primrec interp :: "nat \<Rightarrow> program \<Rightarrow> frame \<Rightarrow> state \<Rightarrow> state option" where
  "interp 0 prog f st = None"
| "interp (Suc n) prog f st =
     (case f of
        EmitF e v \<Rightarrow>
          (case listeners st e of
             None \<Rightarrow> Some st
           | Some a \<Rightarrow> interp n prog (ForEachF a 0 v) st)
      | ForEachF a i v \<Rightarrow>
          (if i < length (set_objs st a) then
             (case set_objs st a ! i of
                None \<Rightarrow> interp n prog (ForEachF a (Suc i) v) st
              | Some fn \<Rightarrow>
                  (case interp n prog (CallF fn v) st of
                     None \<Rightarrow> None
                   | Some st' \<Rightarrow> interp n prog (ForEachF a (Suc i) v) st'))
           else Some st)
      | CallF fn v \<Rightarrow>
          (case fn of
             User k \<Rightarrow>
               interp n prog (RunF (prog (calls st) k v)) (st\<lparr>calls := calls st @ [(k, v)]\<rparr>)
           | Closure c \<Rightarrow>
               (case closures st c of
                  None \<Rightarrow> None
                | Some (OnceAdapter e l) \<Rightarrow>
                    (case interp n prog (CallF l v) st of
                       None \<Rightarrow> None
                     | Some st' \<Rightarrow> Some (unsubscribe (e, Closure c) st'))
                | Some (Resolver p) \<Rightarrow> Some (resolve p v st)
                | Some (TimeoutListener t p) \<Rightarrow> Some (resolve p v (clearTimeout t st))
                | Some (SuccessListener e l p) \<Rightarrow> Some (resolve p v (unsubscribe (e, l) st))
                | Some (FailureListener e l p) \<Rightarrow> Some (reject p v (unsubscribe (e, l) st))))
      | RunF cs \<Rightarrow>
          (case cs of
             [] \<Rightarrow> Some st
           | Emit e v # cs' \<Rightarrow>
               (case interp n prog (EmitF e v) st of
                  None \<Rightarrow> None
                | Some st' \<Rightarrow> interp n prog (RunF cs') st')
           | c # cs' \<Rightarrow> interp n prog (RunF cs') (exec c st)))"

definition emit :: "nat \<Rightarrow> program \<Rightarrow> event \<Rightarrow> val \<Rightarrow> state \<Rightarrow> state option" where
  "emit n prog e v st = interp n prog (EmitF e v) st"

definition forEach :: "nat \<Rightarrow> program \<Rightarrow> nat \<Rightarrow> nat \<Rightarrow> val \<Rightarrow> state \<Rightarrow> state option" where
  "forEach n prog a i v st = interp n prog (ForEachF a i v) st"

definition call :: "nat \<Rightarrow> program \<Rightarrow> listener \<Rightarrow> val \<Rightarrow> state \<Rightarrow> state option" where
  "call n prog fn v st = interp n prog (CallF fn v) st"

definition run :: "nat \<Rightarrow> program \<Rightarrow> cmd list \<Rightarrow> state \<Rightarrow> state option" where
  "run n prog cs st = interp n prog (RunF cs) st"

text \<open>\<^verbatim>\<open>emitCallback\<close> returns the closure \<^verbatim>\<open>(value) => this.emit(event, value)\<close>.\<close>

definition emitCallback :: "event \<Rightarrow> nat \<Rightarrow> program \<Rightarrow> val \<Rightarrow> state \<Rightarrow> state option" where
  "emitCallback e = (\<lambda>n prog v st. emit n prog e v st)"


subsection \<open>The procedures, as the source writes them\<close>

lemma emit_0 [simp]: "emit 0 prog e v st = None"
  by (simp add: emit_def)

lemma emit_Suc [simp]:
  "emit (Suc n) prog e v st =
     (case listeners st e of None \<Rightarrow> Some st | Some a \<Rightarrow> forEach n prog a 0 v st)"
  unfolding emit_def forEach_def by simp

lemma forEach_0 [simp]: "forEach 0 prog a i v st = None"
  by (simp add: forEach_def)

lemma forEach_Suc:
  "forEach (Suc n) prog a i v st =
     (if i < length (set_objs st a) then
        (case set_objs st a ! i of
           None \<Rightarrow> forEach n prog a (Suc i) v st
         | Some fn \<Rightarrow>
             (case call n prog fn v st of
                None \<Rightarrow> None
              | Some st' \<Rightarrow> forEach n prog a (Suc i) v st'))
      else Some st)"
  unfolding forEach_def call_def by simp

lemma call_0 [simp]: "call 0 prog fn v st = None"
  by (simp add: call_def)

lemma call_User [simp]:
  "call (Suc n) prog (User k) v st =
     run n prog (prog (calls st) k v) (st\<lparr>calls := calls st @ [(k, v)]\<rparr>)"
  unfolding call_def run_def by simp

lemma call_Closure:
  "call (Suc n) prog (Closure c) v st =
     (case closures st c of
        None \<Rightarrow> None
      | Some (OnceAdapter e l) \<Rightarrow>
          (case call n prog l v st of
             None \<Rightarrow> None
           | Some st' \<Rightarrow> Some (unsubscribe (e, Closure c) st'))
      | Some (Resolver p) \<Rightarrow> Some (resolve p v st)
      | Some (TimeoutListener t p) \<Rightarrow> Some (resolve p v (clearTimeout t st))
      | Some (SuccessListener e l p) \<Rightarrow> Some (resolve p v (unsubscribe (e, l) st))
      | Some (FailureListener e l p) \<Rightarrow> Some (reject p v (unsubscribe (e, l) st)))"
  unfolding call_def by simp

lemma run_0 [simp]: "run 0 prog cs st = None"
  by (simp add: run_def)

lemma run_Nil [simp]: "run (Suc n) prog [] st = Some st"
  by (simp add: run_def)

lemma run_Cons:
  "run (Suc n) prog (c # cs) st =
     (case c of
        Emit e v \<Rightarrow> (case emit n prog e v st of None \<Rightarrow> None | Some st' \<Rightarrow> run n prog cs st')
      | _ \<Rightarrow> run n prog cs (exec c st))"
  unfolding run_def emit_def by (cases c) simp_all

section \<open>Observations and auxiliary facts\<close>

subsection \<open>The members of a listener set\<close>

text \<open>The values of a set in enumeration order, and the listeners registered for an
  event: the members of its set, none when the map has no entry.\<close>

fun live :: "'a option list \<Rightarrow> 'a list" where
  "live [] = []"
| "live (None # xs) = live xs"
| "live (Some x # xs) = x # live xs"

definition members :: "state \<Rightarrow> event \<Rightarrow> listener list" where
  "members st e = (case listeners st e of None \<Rightarrow> [] | Some a \<Rightarrow> live (set_objs st a))"

lemma live_append [simp]: "live (xs @ ys) = live xs @ live ys"
  by (induction xs rule: live.induct) auto

lemma set_live: "x \<in> set (live xs) \<longleftrightarrow> Some x \<in> set xs"
  by (induction xs rule: live.induct) auto

lemma live_set_add: "live (set_add l xs) = (if l \<in> set (live xs) then live xs else live xs @ [l])"
  by (simp add: set_add_def set_live)

lemma live_set_delete: "live (set_delete l xs) = remove1 l (live xs)"
  by (induction xs rule: live.induct) auto

lemma set_delete_absent: "Some l \<notin> set xs \<Longrightarrow> set_delete l xs = xs"
  by (induction xs) auto

lemma members_on_same:
  "members (snd (on e l st)) e = (if l \<in> set (members st e) then members st e else members st e @ [l])"
  by (auto simp: members_def on_def Let_def live_set_add split: option.splits)

lemma members_unsubscribe:
  "members (unsubscribe (e, l) st) e = remove1 l (members st e)"
  by (auto simp: members_def unsubscribe_def live_set_delete split: option.splits)

lemma unsubscribe_off: "unsubscribe (e, l) (off e st) = off e st"
  by (simp add: unsubscribe_def off_def)

lemma unsubscribe_absent: "l \<notin> set (members st e) \<Longrightarrow> unsubscribe (e, l) st = st"
  by (auto simp: members_def unsubscribe_def set_live set_delete_absent split: option.splits)

subsection \<open>Emission to user functions that leave the emitter alone\<close>

text \<open>
  A user function is \<open>inert\<close> when it never calls the emitter; calling it only adds
  to the record of calls. An event is \<open>plain\<close> when the members of its set are inert
  user functions. \<open>user_calls v ls\<close> are the calls of user functions that one pass
  over \<open>ls\<close> with payload \<open>v\<close> makes, and \<open>emit_fuel\<close> is a bound that is
  enough for the emission of a plain event.
\<close>

definition inert :: "program \<Rightarrow> listener \<Rightarrow> bool" where
  "inert prog l = (case l of User k \<Rightarrow> \<forall>h v. prog h k v = [] | Closure c \<Rightarrow> False)"

fun user_calls :: "val \<Rightarrow> listener list \<Rightarrow> (nat \<times> val) list" where
  "user_calls v [] = []"
| "user_calls v (User k # ls) = (k, v) # user_calls v ls"
| "user_calls v (Closure c # ls) = user_calls v ls"

definition logged :: "(nat \<times> val) list \<Rightarrow> state \<Rightarrow> state" where
  "logged cs st = st\<lparr>calls := calls st @ cs\<rparr>"

lemma logged_simps [simp]:
  "listeners (logged cs st) = listeners st"
  "set_objs (logged cs st) = set_objs st"
  "closures (logged cs st) = closures st"
  "promises (logged cs st) = promises st"
  "timers (logged cs st) = timers st"
  "next_set (logged cs st) = next_set st"
  "next_closure (logged cs st) = next_closure st"
  "next_promise (logged cs st) = next_promise st"
  "next_timer (logged cs st) = next_timer st"
  "calls (logged cs st) = calls st @ cs"
  by (simp_all add: logged_def)

lemma logged_logged [simp]: "logged cs (logged bs st) = logged (bs @ cs) st"
  by (simp add: logged_def)

lemma logged_Nil [simp]: "logged [] st = st"
  by (simp add: logged_def)

lemma call_inert:
  "inert prog l \<Longrightarrow> call (Suc (Suc n)) prog l v st = Some (logged (user_calls v [l]) st)"
  by (cases l) (simp_all add: inert_def logged_def)

lemma forEach_inert_prefix:
  assumes "j \<le> length (set_objs st a)" and "i \<le> j"
    and "\<forall>m. i \<le> m \<and> m < j \<longrightarrow> (case set_objs st a ! m of None \<Rightarrow> True | Some l \<Rightarrow> inert prog l)"
    and "2 \<le> n"
  shows "forEach (n + (j - i)) prog a i v st =
         forEach n prog a j v (logged (user_calls v (live (take (j - i) (drop i (set_objs st a))))) st)"
  using assms
proof (induction "j - i" arbitrary: i st)
  case 0
  then show ?case by simp
next
  case (Suc d)
  then have i: "i < length (set_objs st a)" and ij: "i < j" and d: "d = j - Suc i" by auto
  from Suc.prems(4) obtain n' where n: "n = Suc (Suc n')"
    by (cases n; cases "n - 1") auto
  have fuel: "n + (j - i) = Suc (n + (j - Suc i))" using ij by simp
  have dr: "take (j - i) (drop i (set_objs st a)) =
            set_objs st a ! i # take (j - Suc i) (drop (Suc i) (set_objs st a))"
    using i ij by (metis Cons_nth_drop_Suc Suc_diff_Suc take_Suc_Cons)
  from Suc.prems(3) ij have ent: "case set_objs st a ! i of None \<Rightarrow> True | Some l \<Rightarrow> inert prog l"
    by simp
  show ?case
  proof (cases "set_objs st a ! i")
    case None
    have "forEach (n + (j - Suc i)) prog a (Suc i) v st =
          forEach n prog a j v (logged (user_calls v (live (take (j - Suc i) (drop (Suc i) (set_objs st a))))) st)"
      using Suc.prems ij d by (intro Suc.hyps(1)) auto
    then show ?thesis using None i by (simp add: fuel forEach_Suc dr)
  next
    case (Some l)
    with ent have inl: "inert prog l" by simp
    then obtain k where l: "l = User k" by (cases l) (auto simp: inert_def)
    have c: "call (n + (j - Suc i)) prog l v st = Some (logged [(k, v)] st)"
      using call_inert [OF inl, of "n' + (j - Suc i)" v st] n l by simp
    have "forEach (n + (j - Suc i)) prog a (Suc i) v (logged [(k, v)] st) =
          forEach n prog a j v (logged (user_calls v (live (take (j - Suc i)
             (drop (Suc i) (set_objs (logged [(k, v)] st) a))))) (logged [(k, v)] st))"
      using Suc.prems ij d by (intro Suc.hyps(1)) auto
    then show ?thesis using Some i c l by (simp add: fuel forEach_Suc dr)
  qed
qed

definition plain :: "program \<Rightarrow> state \<Rightarrow> event \<Rightarrow> bool" where
  "plain prog st e = (\<forall>l \<in> set (members st e). inert prog l)"

definition emit_fuel :: "state \<Rightarrow> event \<Rightarrow> nat" where
  "emit_fuel st e = (case listeners st e of None \<Rightarrow> 1 | Some a \<Rightarrow> length (set_objs st a) + 3)"

lemma forEach_inert_from:
  assumes "\<forall>m. i \<le> m \<and> m < length (set_objs st a) \<longrightarrow>
             (case set_objs st a ! m of None \<Rightarrow> True | Some l \<Rightarrow> inert prog l)"
    and "length (set_objs st a) - i + 2 \<le> n" and "i \<le> length (set_objs st a)"
  shows "forEach n prog a i v st = Some (logged (user_calls v (live (drop i (set_objs st a)))) st)"
proof -
  let ?len = "length (set_objs st a)"
  define n' where "n' = n - (?len - i) - 2"
  have n: "n = Suc (Suc n') + (?len - i)"
    using assms(2) by (simp add: n'_def)
  have "forEach (Suc (Suc n') + (?len - i)) prog a i v st =
        forEach (Suc (Suc n')) prog a ?len v
          (logged (user_calls v (live (take (?len - i) (drop i (set_objs st a))))) st)"
    using assms(1,3) by (intro forEach_inert_prefix) auto
  then show ?thesis by (simp add: n forEach_Suc)
qed

lemma plain_entries:
  assumes "plain prog st e" and "listeners st e = Some a"
  shows "\<forall>m. i \<le> m \<and> m < length (set_objs st a) \<longrightarrow>
             (case set_objs st a ! m of None \<Rightarrow> True | Some l \<Rightarrow> inert prog l)"
proof (intro allI impI)
  fix m assume m: "i \<le> m \<and> m < length (set_objs st a)"
  show "case set_objs st a ! m of None \<Rightarrow> True | Some l \<Rightarrow> inert prog l"
  proof (cases "set_objs st a ! m")
    case None
    then show ?thesis by simp
  next
    case (Some l)
    with m have "Some l \<in> set (set_objs st a)" by (metis nth_mem)
    then have "l \<in> set (members st e)" using assms(2) by (simp add: members_def set_live)
    with assms(1) Some show ?thesis by (simp add: plain_def)
  qed
qed

lemma emit_plain:
  assumes "plain prog st e" and "emit_fuel st e \<le> n"
  shows "emit n prog e v st = Some (logged (user_calls v (members st e)) st)"
proof (cases "listeners st e")
  case None
  with assms(2) obtain m where "n = Suc m" by (cases n) (auto simp: emit_fuel_def)
  with None show ?thesis by (simp add: members_def)
next
  case (Some a)
  with assms(2) obtain m where n: "n = Suc m" and m: "length (set_objs st a) - 0 + 2 \<le> m"
    by (cases n) (auto simp: emit_fuel_def)
  have "forEach m prog a 0 v st = Some (logged (user_calls v (live (drop 0 (set_objs st a)))) st)"
    using plain_entries [OF assms(1) Some] m by (intro forEach_inert_from) auto
  with Some n show ?thesis by (simp add: members_def)
qed

lemma distinct_members_on:
  "distinct (members st e) \<Longrightarrow> distinct (members (snd (on e l st)) e)"
  by (simp add: members_on_same)

lemma distinct_members_unsubscribe:
  "distinct (members st e) \<Longrightarrow> distinct (members (unsubscribe (e, l) st) e)"
  by (simp add: members_unsubscribe)

lemma distinct_members_new: "distinct (members new_emitter e)"
  by (simp add: members_def new_emitter_def)

subsection \<open>Registering several times\<close>

text \<open>\<open>on_times m e l\<close> calls \<^verbatim>\<open>on(e, l)\<close> \<open>m\<close> times in a row.\<close>

lemma calls_on [simp]: "calls (snd (on e l st)) = calls st"
  by (simp add: on_def Let_def split: option.splits)

lemma calls_unsubscribe [simp]: "calls (unsubscribe h st) = calls st"
  by (simp add: unsubscribe_def split: option.splits)

lemma filter_user_calls:
  "filter (\<lambda>c. fst c = k) (user_calls v ls) = replicate (count_list ls (User k)) (k, v)"
  by (induction v ls rule: user_calls.induct) auto


fun on_times :: "nat \<Rightarrow> event \<Rightarrow> listener \<Rightarrow> state \<Rightarrow> state" where
  "on_times 0 e l st = st"
| "on_times (Suc m) e l st = snd (on e l (on_times m e l st))"


lemma calls_on_times [simp]: "calls (on_times m e l st) = calls st"
  by (induction m) auto


lemma fst_on [simp]: "fst (on e l st) = (e, l)"
  by (simp add: on_def Let_def)





subsection \<open>Emission to a set that ends with an adapter of once\<close>

text \<open>\<open>entries\<close> are the positions of the event's set, \<open>set_of\<close> is the set object
  that the next registration for the event uses (a new one when the event has none), and
  \<open>emits\<close> is a sequence of \<^verbatim>\<open>emit\<close> calls for one event, one per payload.\<close>

definition entries :: "state \<Rightarrow> event \<Rightarrow> listener option list" where
  "entries st e = (case listeners st e of None \<Rightarrow> [] | Some a \<Rightarrow> set_objs st a)"

definition set_of :: "state \<Rightarrow> event \<Rightarrow> nat" where
  "set_of st e = (case listeners st e of None \<Rightarrow> next_set st | Some a \<Rightarrow> a)"

lemma members_entries: "members st e = live (entries st e)"
  by (simp add: members_def entries_def split: option.splits)

lemma length_set_delete [simp]: "length (set_delete l xs) = length xs"
  by (induction xs) auto

lemma length_set_objs_unsubscribe [simp]:
  "length (set_objs (unsubscribe h st) a) = length (set_objs st a)"
  by (simp add: unsubscribe_def split: option.splits)

lemma set_delete_last:
  "Some l \<notin> set xs \<Longrightarrow> set_delete l (xs @ [Some l]) = xs @ [None]"
  by (induction xs) auto

lemma plain_no_closure:
  assumes "plain prog st e" and "Some (Closure c) \<in> set (entries st e)"
  shows False
proof -
  from assms have "inert prog (Closure c)" by (simp add: plain_def members_entries set_live)
  then show False by (simp add: inert_def)
qed

lemma plain_entries_inert:
  "plain prog st e \<Longrightarrow> \<forall>x \<in> set (entries st e). case x of None \<Rightarrow> True | Some l \<Rightarrow> inert prog l"
  by (auto simp: plain_def members_entries set_live split: option.splits)

lemma on_fresh:
  assumes "Some l \<notin> set (entries st e)"
  shows "snd (on e l st) =
     st\<lparr>listeners := (listeners st)(e \<mapsto> set_of st e),
        set_objs := (set_objs st)(set_of st e := entries st e @ [Some l]),
        next_set := (if listeners st e = None then Suc (next_set st) else next_set st)\<rparr>"
  using assms
  by (cases "listeners st e")
     (auto simp: on_def Let_def entries_def set_of_def set_add_def fun_upd_idem intro!: state.equality)

lemma emit_adapter_last:
  assumes "listeners st e = Some a"
    and "set_objs st a = xs @ [Some (Closure c)]"
    and "\<forall>x \<in> set xs. case x of None \<Rightarrow> True | Some l \<Rightarrow> inert prog l"
    and "closures st c = Some (OnceAdapter e' l)"
    and "\<forall>m\<ge>2. call m prog l v (logged (user_calls v (live xs)) st) = Some st'"
    and "length (set_objs st' a) = Suc (length xs)"
    and "length xs + 5 \<le> n"
  shows "emit n prog e v st = Some (unsubscribe (e', Closure c) st')"
proof -
  let ?sti = "logged (user_calls v (live xs)) st"
  define m where "m = n - length xs - 5"
  have n: "n = Suc (Suc (Suc (Suc (Suc m))) + (length xs - 0))" using assms(7) by (simp add: m_def)
  have ent: "\<forall>j. 0 \<le> j \<and> j < length xs \<longrightarrow>
               (case set_objs st a ! j of None \<Rightarrow> True | Some l \<Rightarrow> inert prog l)"
    using assms(3) by (simp add: assms(2) nth_append)
  have 1: "forEach (Suc (Suc (Suc (Suc m))) + (length xs - 0)) prog a 0 v st =
           forEach (Suc (Suc (Suc (Suc m)))) prog a (length xs) v
             (logged (user_calls v (live (take (length xs - 0) (drop 0 (set_objs st a))))) st)"
    using ent by (intro forEach_inert_prefix) (auto simp: assms(2))
  have l: "call (Suc (Suc m)) prog l v ?sti = Some st'" using assms(5) by simp
  have 2: "call (Suc (Suc (Suc m))) prog (Closure c) v ?sti = Some (unsubscribe (e', Closure c) st')"
    using assms(4) l by (simp add: call_Closure)
  have 3: "forEach (Suc (Suc (Suc m))) prog a (Suc (length xs)) v (unsubscribe (e', Closure c) st')
           = Some (unsubscribe (e', Closure c) st')"
    by (subst forEach_Suc) (simp add: assms(6))
  have "forEach (Suc (Suc (Suc (Suc m)))) prog a (length xs) v ?sti
          = Some (unsubscribe (e', Closure c) st')"
    using 2 3 by (subst forEach_Suc) (simp add: assms(2))
  with 1 show ?thesis using assms(1) by (simp add: n assms(2))
qed

fun emits :: "nat \<Rightarrow> program \<Rightarrow> event \<Rightarrow> val list \<Rightarrow> state \<Rightarrow> state option" where
  "emits n prog e [] st = Some st"
| "emits n prog e (v # vs) st =
     (case emit n prog e v st of None \<Rightarrow> None | Some st' \<Rightarrow> emits n prog e vs st')"

lemma plain_logged [simp]: "plain prog (logged cs st) e = plain prog st e"
  by (simp add: plain_def members_def split: option.splits)

lemma members_logged [simp]: "members (logged cs st) e = members st e"
  by (simp add: members_def split: option.splits)

lemma emit_fuel_logged [simp]: "emit_fuel (logged cs st) e = emit_fuel st e"
  by (simp add: emit_fuel_def split: option.splits)

lemma emits_plain:
  assumes "plain prog st e" and "emit_fuel st e \<le> n"
  shows "emits n prog e vs st =
         Some (logged (concat (map (\<lambda>v. user_calls v (members st e)) vs)) st)"
  using assms
proof (induction vs arbitrary: st)
  case Nil
  then show ?case by simp
next
  case (Cons v vs)
  have "emit n prog e v st = Some (logged (user_calls v (members st e)) st)"
    using Cons.prems(1) Cons.prems(2) by (rule emit_plain)
  moreover have "emits n prog e vs (logged (user_calls v (members st e)) st) =
      Some (logged (concat (map (\<lambda>w. user_calls w (members (logged (user_calls v (members st e)) st) e)) vs))
        (logged (user_calls v (members st e)) st))"
    using Cons.prems by (intro Cons.IH) auto
  ultimately show ?case by simp
qed



lemma promises_unsubscribe [simp]: "promises (unsubscribe h st) = promises st"
  by (simp add: unsubscribe_def split: option.splits)

lemma listeners_unsubscribe [simp]: "listeners (unsubscribe h st) = listeners st"
  by (simp add: unsubscribe_def split: option.splits)

lemma listeners_resolve [simp]: "listeners (resolve p v st) = listeners st"
  by (simp add: resolve_def)

lemma set_objs_resolve [simp]: "set_objs (resolve p v st) = set_objs st"
  by (simp add: resolve_def)


lemma members_unsubscribe_last:
  assumes "listeners st e = Some a" and "set_objs st a = xs @ [Some l]" and "Some l \<notin> set xs"
  shows "members (unsubscribe (e, l) st) e = live xs"
    and "length (set_objs (unsubscribe (e, l) st) a) = Suc (length xs)"
  using assms by (simp_all add: members_def unsubscribe_def set_delete_last)




lemma timers_unsubscribe [simp]: "timers (unsubscribe h st) = timers st"
  by (simp add: unsubscribe_def split: option.splits)

lemma timers_resolve [simp]: "timers (resolve p v st) = timers st"
  by (simp add: resolve_def)


lemma listeners_reject [simp]: "listeners (reject p v st) = listeners st"
  by (simp add: reject_def)

lemma set_objs_reject [simp]: "set_objs (reject p v st) = set_objs st"
  by (simp add: reject_def)

lemma members_reject [simp]: "members (reject p v st) e = members st e"
  by (simp add: members_def split: option.splits)

lemma members_resolve [simp]: "members (resolve p v st) e = members st e"
  by (simp add: members_def split: option.splits)


subsection \<open>Two events with separate sets\<close>

text \<open>Every \<^verbatim>\<open>Set\<close> in the map was created by \<^verbatim>\<open>new Set()\<close> for its own event: no
  two events share a set object, and the next set object is a new one.\<close>

definition sets_apart :: "state \<Rightarrow> bool" where
  "sets_apart st =
     ((\<forall>e a. listeners st e = Some a \<longrightarrow> a < next_set st) \<and>
      (\<forall>e e' a. listeners st e = Some a \<and> listeners st e' = Some a \<longrightarrow> e = e'))"

lemma sets_apart_new: "sets_apart new_emitter"
  by (simp add: sets_apart_def new_emitter_def)

lemma sets_apart_on: "sets_apart st \<Longrightarrow> sets_apart (snd (on e l st))"
  by (cases "listeners st e") (auto simp: sets_apart_def on_def Let_def less_Suc_eq split: if_splits)

lemma sets_apart_off: "sets_apart st \<Longrightarrow> sets_apart (off e st)"
  by (auto simp: sets_apart_def off_def split: if_splits)

lemma sets_apart_unsubscribe: "sets_apart st \<Longrightarrow> sets_apart (unsubscribe h st)"
  by (auto simp: sets_apart_def unsubscribe_def split: option.splits)

lemma set_objs_unsubscribe:
  "listeners st e = Some a \<Longrightarrow>
   set_objs (unsubscribe (e, l) st) = (set_objs st)(a := set_delete l (set_objs st a))"
  by (simp add: unsubscribe_def)



lemma fst_once [simp]: "fst (once e l st) = (e, Closure (next_closure st))"
  by (simp add: once_def new_closure_def)

lemma once_fresh:
  assumes "Some (Closure (next_closure st)) \<notin> set (entries st e)"
  shows "snd (once e l st) =
     st\<lparr>listeners := (listeners st)(e \<mapsto> set_of st e),
        set_objs := (set_objs st)(set_of st e := entries st e @ [Some (Closure (next_closure st))]),
        next_set := (if listeners st e = None then Suc (next_set st) else next_set st),
        closures := (closures st)(next_closure st \<mapsto> OnceAdapter e l),
        next_closure := Suc (next_closure st)\<rparr>"
  using assms
  by (cases "listeners st e")
     (auto simp: once_def new_closure_def on_def Let_def set_add_def entries_def set_of_def
        fun_upd_idem intro!: state.equality)

lemma new_promise_eq:
  "new_promise st = (next_promise st,
     st\<lparr>promises := (promises st)(next_promise st \<mapsto> Pending),
        next_promise := Suc (next_promise st)\<rparr>)"
  by (simp add: new_promise_def)

lemma next_closure_once: "next_closure (snd (once e l st)) = Suc (next_closure st)"
  by (simp add: once_def new_closure_def on_def Let_def split: option.splits)

lemma next_closure_new_closure: "next_closure (snd (new_closure c st)) = Suc (next_closure st)"
  by (simp add: new_closure_def)

lemma fst_new_closure: "fst (new_closure c st) = Closure (next_closure st)"
  by (simp add: new_closure_def)

lemma takeEither_steps:
  "takeEither es ef st =
     (next_promise st,
      snd (once ef (Closure (next_closure st + 2))
        (snd (new_closure (FailureListener es (Closure (next_closure st + 1)) (next_promise st))
          (snd (once es (Closure (next_closure st))
            (snd (new_closure (SuccessListener ef (Closure (next_closure st + 3)) (next_promise st))
              (snd (new_promise st))))))))))"
  unfolding takeEither_def
  by (simp add: Let_def split_beta next_closure_once next_closure_new_closure fst_new_closure
        new_promise_eq)





subsection \<open>A settled promise stays as it is\<close>

text \<open>Whatever runs on the emitter, with whatever listeners: \<^verbatim>\<open>resolve\<close> and
  \<^verbatim>\<open>reject\<close> change a pending promise only, and a new promise is a new object.\<close>

definition settled_at :: "nat \<Rightarrow> settlement \<Rightarrow> state \<Rightarrow> bool" where
  "settled_at p s st = (p < next_promise st \<and> promises st p = Some s \<and> s \<noteq> Pending)"

lemma settled_at_cong:
  "promises st' = promises st \<Longrightarrow> next_promise st' = next_promise st \<Longrightarrow>
   settled_at p s st' = settled_at p s st"
  by (simp add: settled_at_def)

lemma settled_at_on: "settled_at p s (snd (on e l st)) = settled_at p s st"
  by (rule settled_at_cong) (simp_all add: on_def Let_def split: option.splits)

lemma settled_at_unsubscribe: "settled_at p s (unsubscribe h st) = settled_at p s st"
  by (rule settled_at_cong) (simp_all add: unsubscribe_def split: option.splits)

lemma settled_at_off: "settled_at p s (off e st) = settled_at p s st"
  by (rule settled_at_cong) (simp_all add: off_def)

lemma settled_at_clearTimeout: "settled_at p s (clearTimeout t st) = settled_at p s st"
  by (rule settled_at_cong) (simp_all add: clearTimeout_def)

lemma settled_at_new_closure: "settled_at p s (snd (new_closure c st)) = settled_at p s st"
  by (rule settled_at_cong) (simp_all add: new_closure_def)

lemma settled_at_once: "settled_at p s (snd (once e l st)) = settled_at p s st"
  by (simp add: once_def split_beta settled_at_on settled_at_new_closure)

lemma settled_at_new_promise: "settled_at p s st \<Longrightarrow> settled_at p s (snd (new_promise st))"
  by (auto simp: settled_at_def new_promise_def)

lemma settled_at_resolve: "settled_at p s st \<Longrightarrow> settled_at p s (resolve q v st)"
  by (auto simp: settled_at_def resolve_def)

lemma settled_at_reject: "settled_at p s st \<Longrightarrow> settled_at p s (reject q v st)"
  by (auto simp: settled_at_def reject_def)

lemma settled_at_take_event: "settled_at p s st \<Longrightarrow> settled_at p s (snd (take_event e st))"
  by (simp add: take_event_def createDeferred_def split_beta settled_at_once
        settled_at_new_closure settled_at_new_promise)

lemma settled_at_takeTimeout: "settled_at p s st \<Longrightarrow> settled_at p s (snd (takeTimeout e ms st))"
proof -
  assume a: "settled_at p s st"
  let ?st3 = "snd (once e (fst (new_closure (TimeoutListener (next_timer (snd (createDeferred st)))
               (snd (fst (createDeferred st)))) (snd (createDeferred st))))
             (snd (new_closure (TimeoutListener (next_timer (snd (createDeferred st)))
               (snd (fst (createDeferred st)))) (snd (createDeferred st)))))"
  have "settled_at p s ?st3"
    using a by (simp add: createDeferred_def split_beta settled_at_once
        settled_at_new_closure settled_at_new_promise)
  moreover have "promises (snd (takeTimeout e ms st)) = promises ?st3"
    and "next_promise (snd (takeTimeout e ms st)) = next_promise ?st3"
    by (simp_all add: takeTimeout_def split_beta Let_def)
  ultimately show ?thesis by (simp add: settled_at_def)
qed

lemma settled_at_takeEither: "settled_at p s st \<Longrightarrow> settled_at p s (snd (takeEither a b st))"
  by (simp add: takeEither_steps settled_at_once settled_at_new_closure settled_at_new_promise)

lemma settled_at_exec: "settled_at p s st \<Longrightarrow> settled_at p s (exec c st)"
  by (cases c)
     (simp_all add: settled_at_on settled_at_once settled_at_take_event settled_at_takeTimeout
        settled_at_takeEither settled_at_off settled_at_unsubscribe)

lemma settled_at_calls: "settled_at p s (st\<lparr>calls := cs\<rparr>) = settled_at p s st"
  by (simp add: settled_at_def)

lemma interp_settled:
  "interp m prog f st = Some st' \<Longrightarrow> settled_at p s st \<Longrightarrow> settled_at p s st'"
proof (induction m arbitrary: f st st')
  case 0
  then show ?case by simp
next
  case (Suc m)
  show ?case
  proof (cases f)
    case (EmitF e v)
    with Suc.prems show ?thesis
      by (auto split: option.splits dest: Suc.IH)
  next
    case (ForEachF a i v)
    with Suc.prems show ?thesis
      by (auto split: option.splits if_splits dest: Suc.IH)
  next
    case (CallF fn v)
    show ?thesis
    proof (cases fn)
      case (User k)
      with CallF Suc.prems show ?thesis
        by (auto dest!: Suc.IH simp: settled_at_calls)
    next
      case (Closure c)
      with CallF Suc.prems show ?thesis
        by (auto split: option.splits closure.splits dest: Suc.IH
              simp: settled_at_unsubscribe settled_at_resolve settled_at_reject
                settled_at_clearTimeout)
    qed
  next
    case (RunF cs)
    show ?thesis
    proof (cases cs)
      case Nil
      with RunF Suc.prems show ?thesis by simp
    next
      case (Cons c cs')
      with RunF Suc.prems show ?thesis
        by (cases c) (auto split: option.splits dest: Suc.IH simp: settled_at_on settled_at_once
              settled_at_take_event settled_at_takeTimeout settled_at_takeEither settled_at_off
              settled_at_unsubscribe)
    qed
  qed
qed

lemma emit_settled:
  "emit m prog e v st = Some st' \<Longrightarrow> settled_at p s st \<Longrightarrow> settled_at p s st'"
  unfolding emit_def by (rule interp_settled)

lemma timer_fires_settled: "settled_at p s st \<Longrightarrow> settled_at p s (timer_fires t st)"
  by (auto simp: timer_fires_def settled_at_reject settled_at_unsubscribe settled_at_def
        reject_def unsubscribe_def split: option.splits)


lemma next_promise_unsubscribe [simp]: "next_promise (unsubscribe h st) = next_promise st"
  by (simp add: unsubscribe_def split: option.splits)

lemma next_promise_resolve [simp]: "next_promise (resolve p v st) = next_promise st"
  by (simp add: resolve_def)

lemma next_promise_reject [simp]: "next_promise (reject p v st) = next_promise st"
  by (simp add: reject_def)




lemma members_unsubscribe_other:
  assumes "sets_apart st" and "e' \<noteq> e"
  shows "members (unsubscribe (e, l) st) e' = members st e'"
proof (cases "listeners st e")
  case None
  then show ?thesis by (simp add: unsubscribe_def)
next
  case (Some a)
  show ?thesis
  proof (cases "listeners st e'")
    case None
    then show ?thesis by (simp add: members_def)
  next
    case (Some b)
    with \<open>listeners st e = Some a\<close> assms have "a \<noteq> b" by (auto simp: sets_apart_def)
    with Some \<open>listeners st e = Some a\<close> show ?thesis
      by (simp add: members_def set_objs_unsubscribe [where a = a])
  qed
qed


subsection \<open>once with a listener that does not emit\<close>

text \<open>A user function that leaves the emitter alone, registered with \<^verbatim>\<open>once\<close> and
  not registered otherwise, is called by the first emission of the event and by none of
  those that follow.\<close>

lemma filter_user_calls_absent:
  "User k \<notin> set ls \<Longrightarrow> filter (\<lambda>c. fst c = k) (user_calls v ls) = []"
  by (simp add: filter_user_calls)

lemma filter_concat_user_calls_absent:
  "User k \<notin> set ls \<Longrightarrow>
   filter (\<lambda>c. fst c = k) (concat (map (\<lambda>w. user_calls w ls) vs)) = []"
  by (induction vs) (simp_all add: filter_user_calls_absent)

lemma once_inert_called_once:
  assumes "plain prog st e" and "inert prog (User k)" and "User k \<notin> set (members st e)"
    and "emit_fuel st e + 4 \<le> n"
  shows "\<exists>st'. emits n prog e (v # vs) (snd (once e (User k) st)) = Some st' \<and>
           filter (\<lambda>c. fst c = k) (drop (length (calls st)) (calls st')) = [(k, v)]"
proof -
  let ?c = "next_closure st" and ?a = "set_of st e" and ?xs = "entries st e"
  let ?st1 = "snd (once e (User k) st)"
  have notin: "Some (Closure ?c) \<notin> set ?xs" using plain_no_closure [OF assms(1)] by blast
  note o = once_fresh [OF notin, of "User k"]
  have lis: "listeners ?st1 e = Some ?a" and objs: "set_objs ?st1 ?a = ?xs @ [Some (Closure ?c)]"
    and ad: "closures ?st1 ?c = Some (OnceAdapter e (User k))" and cs: "calls ?st1 = calls st"
    by (simp_all add: o)
  have len: "length ?xs + 5 \<le> n" "length ?xs + 4 \<le> n"
    using assms(4) by (auto simp: emit_fuel_def entries_def split: option.splits)
  let ?sti = "logged (user_calls v (live ?xs)) ?st1"
  let ?st' = "logged (user_calls v [User k]) ?sti"
  let ?st2 = "unsubscribe (e, Closure ?c) ?st'"
  have "\<forall>m\<ge>2. call m prog (User k) v ?sti = Some ?st'"
  proof (intro allI impI)
    fix m :: nat assume "2 \<le> m"
    then obtain m' where "m = Suc (Suc m')" by (cases m; cases "m - 1") auto
    then show "call m prog (User k) v ?sti = Some ?st'"
      using call_inert [OF assms(2), of m' v ?sti] by simp
  qed
  moreover have "length (set_objs ?st' ?a) = Suc (length ?xs)" by (simp add: objs)
  ultimately have e1: "emit n prog e v ?st1 = Some ?st2"
    using lis objs plain_entries_inert [OF assms(1)] ad len(1) by (intro emit_adapter_last) auto
  have m2: "members ?st2 e = live ?xs"
    by (rule members_unsubscribe_last(1) [where a = ?a]) (simp_all add: lis objs notin)
  then have pl2: "plain prog ?st2 e" using assms(1) by (simp add: plain_def members_entries)
  have "length (set_objs ?st2 ?a) = Suc (length ?xs)" by (simp add: objs)
  then have f2: "emit_fuel ?st2 e \<le> n" using len(2) by (simp add: emit_fuel_def lis)
  let ?st3 = "logged (concat (map (\<lambda>w. user_calls w (live ?xs)) vs)) ?st2"
  have e2: "emits n prog e vs ?st2 = Some ?st3"
    using emits_plain [OF pl2 f2, of vs] unfolding m2 .
  have "calls ?st3 = calls st @ user_calls v (live ?xs) @ [(k, v)] @
          concat (map (\<lambda>w. user_calls w (live ?xs)) vs)"
    by (simp add: cs)
  moreover have "User k \<notin> set (live ?xs)" using assms(3) by (simp add: members_entries)
  ultimately have "filter (\<lambda>c. fst c = k) (drop (length (calls st)) (calls ?st3)) = [(k, v)]"
    by (simp add: filter_user_calls_absent filter_concat_user_calls_absent)
  with e1 e2 show ?thesis by simp
qed

text \<open>Called before the event is emitted, the unsubscribe function of \<^verbatim>\<open>once\<close>
  prevents every call.\<close>

lemma once_unsubscribed_never_called:
  assumes "plain prog st e" and "User k \<notin> set (members st e)" and "emit_fuel st e + 4 \<le> n"
  shows "\<exists>st'. emits n prog e vs (unsubscribe (fst (once e (User k) st)) (snd (once e (User k) st)))
                  = Some st' \<and>
           filter (\<lambda>c. fst c = k) (drop (length (calls st)) (calls st')) = []"
proof -
  let ?c = "next_closure st" and ?a = "set_of st e" and ?xs = "entries st e"
  let ?st1 = "snd (once e (User k) st)"
  let ?st2 = "unsubscribe (e, Closure ?c) ?st1"
  have notin: "Some (Closure ?c) \<notin> set ?xs" using plain_no_closure [OF assms(1)] by blast
  note o = once_fresh [OF notin, of "User k"]
  have lis: "listeners ?st1 e = Some ?a" and objs: "set_objs ?st1 ?a = ?xs @ [Some (Closure ?c)]"
    and cs: "calls ?st1 = calls st"
    by (simp_all add: o)
  have m2: "members ?st2 e = live ?xs"
    by (rule members_unsubscribe_last(1) [where a = ?a]) (simp_all add: lis objs notin)
  then have pl2: "plain prog ?st2 e" using assms(1) by (simp add: plain_def members_entries)
  have "length (set_objs ?st2 ?a) = Suc (length ?xs)" by (simp add: objs)
  then have f2: "emit_fuel ?st2 e \<le> n"
    using assms(3) by (auto simp: emit_fuel_def lis entries_def split: option.splits)
  let ?st3 = "logged (concat (map (\<lambda>w. user_calls w (live ?xs)) vs)) ?st2"
  have e2: "emits n prog e vs ?st2 = Some ?st3"
    using emits_plain [OF pl2 f2, of vs] unfolding m2 .
  have "calls ?st3 = calls st @ concat (map (\<lambda>w. user_calls w (live ?xs)) vs)"
    by (simp add: cs)
  moreover have "User k \<notin> set (live ?xs)" using assms(2) by (simp add: members_entries)
  ultimately have "filter (\<lambda>c. fst c = k) (drop (length (calls st)) (calls ?st3)) = []"
    by (simp add: filter_concat_user_calls_absent)
  with e2 show ?thesis by simp
qed

section \<open>Properties of the emitter\<close>

text \<open>
  C8. For every event and payload \<open>v\<close>, calling the function returned by
  \<^verbatim>\<open>emitCallback(event)\<close> with \<open>v\<close> has the same effect on the emitter as
  \<^verbatim>\<open>emit(event, v)\<close>: the same listener calls and the same resulting state, and the
  same failure to return where \<^verbatim>\<open>emit\<close> does not return.
\<close>

theorem emitCallback_is_emit:
  "emitCallback e n prog v st = emit n prog e v st"
  by (simp add: emitCallback_def)

text \<open>
  C9. Emitting an event that has no listeners (no entry in the map, as before any
  registration or after \<^verbatim>\<open>off\<close>, or an entry whose set holds only deleted
  positions) returns, calls nothing and leaves the whole state as it was.
\<close>

lemma forEach_all_deleted:
  "\<forall>j. i \<le> j \<and> j < length (set_objs st a) \<longrightarrow> set_objs st a ! j = None \<Longrightarrow>
   length (set_objs st a) - i < n \<Longrightarrow> forEach n prog a i v st = Some st"
proof (induction n arbitrary: i)
  case 0
  then show ?case by simp
next
  case (Suc n)
  show ?case
  proof (cases "i < length (set_objs st a)")
    case True
    with Suc.prems have "set_objs st a ! i = None" by simp
    moreover have "forEach n prog a (Suc i) v st = Some st"
      using Suc.prems True by (intro Suc.IH) auto
    ultimately show ?thesis using True by (simp add: forEach_Suc)
  next
    case False
    then show ?thesis by (simp add: forEach_Suc)
  qed
qed

theorem emit_no_listeners:
  assumes "case listeners st e of
             None \<Rightarrow> 0 < n
           | Some a \<Rightarrow> (\<forall>x \<in> set (set_objs st a). x = None) \<and> length (set_objs st a) + 1 < n"
  shows "emit n prog e v st = Some st"
proof (cases "listeners st e")
  case None
  with assms obtain m where "n = Suc m" by (cases n) auto
  with None show ?thesis by simp
next
  case (Some a)
  with assms have del: "\<forall>x \<in> set (set_objs st a). x = None"
    and len: "length (set_objs st a) + 1 < n" by simp_all
  from len obtain m where n: "n = Suc m" by (cases n) auto
  from del have "\<forall>j. 0 \<le> j \<and> j < length (set_objs st a) \<longrightarrow> set_objs st a ! j = None"
    by simp
  moreover have "length (set_objs st a) - 0 < m" using len n by simp
  ultimately have "forEach m prog a 0 v st = Some st" by (rule forEach_all_deleted)
  then show ?thesis using Some n by simp
qed

theorem emit_no_listeners_witness:
  "listeners (unsubscribe (''first'', User 0) (snd (on ''first'' (User 0) new_emitter))) ''first''
     = Some 0 \<and>
   set_objs (unsubscribe (''first'', User 0) (snd (on ''first'' (User 0) new_emitter))) 0
     = [None] \<and>
   emit 3 (\<lambda>h k v. []) ''first'' (Num 100)
     (unsubscribe (''first'', User 0) (snd (on ''first'' (User 0) new_emitter)))
     = Some (unsubscribe (''first'', User 0) (snd (on ''first'' (User 0) new_emitter)))"
proof -
  let ?st = "unsubscribe (''first'', User 0) (snd (on ''first'' (User 0) new_emitter))"
  have l: "listeners ?st ''first'' = Some 0"
    by (simp add: unsubscribe_def on_def new_emitter_def set_add_def Let_def)
  have s: "set_objs ?st 0 = [None]"
    by (simp add: unsubscribe_def on_def new_emitter_def set_add_def Let_def)
  have "emit 3 (\<lambda>h k v. []) ''first'' (Num 100) ?st = Some ?st"
    by (rule emit_no_listeners)
       (simp add: unsubscribe_def on_def new_emitter_def set_add_def Let_def)
  with l s show ?thesis by simp
qed




text \<open>
  C10. Registrations are not counted. After \<^verbatim>\<open>on(e, L)\<close> twice, one call of either
  returned unsubscribe function removes \<open>L\<close> from the set of \<open>e\<close>, and the next
  emission of \<open>e\<close> does not call \<open>L\<close>.
\<close>

theorem unsubscribe_not_counted:
  assumes "distinct (members st e)"
    and "\<forall>m \<in> set (members st e). m \<noteq> User k \<longrightarrow> inert prog m"
    and "h = fst (on e (User k) st) \<or> h = fst (on e (User k) (snd (on e (User k) st)))"
    and "emit_fuel (unsubscribe h (snd (on e (User k) (snd (on e (User k) st))))) e \<le> n"
  shows "User k \<notin> set (members (unsubscribe h (snd (on e (User k) (snd (on e (User k) st))))) e) \<and>
         (\<exists>st'. emit n prog e v (unsubscribe h (snd (on e (User k) (snd (on e (User k) st)))))
                  = Some st' \<and>
                filter (\<lambda>c. fst c = k) (drop (length (calls st)) (calls st')) = [])"
proof -
  let ?st2 = "snd (on e (User k) (snd (on e (User k) st)))"
  let ?st3 = "unsubscribe h ?st2"
  from assms(3) have h: "h = (e, User k)" by auto
  have m2: "members ?st2 e =
      (if User k \<in> set (members st e) then members st e else members st e @ [User k])"
    by (simp add: members_on_same)
  have m3: "members ?st3 e = remove1 (User k) (members ?st2 e)"
    by (simp add: h members_unsubscribe)
  have d2: "distinct (members ?st2 e)" using assms(1) by (simp add: m2)
  have out: "User k \<notin> set (members ?st3 e)" using d2 by (simp add: m3)
  have sub: "set (members ?st3 e) \<subseteq> set (members st e) - {User k}"
    using d2 out by (auto simp: m3 m2 split: if_splits dest: notin_set_remove1)
  have pl: "plain prog ?st3 e" using assms(2) sub by (auto simp: plain_def)
  have "emit n prog e v ?st3 = Some (logged (user_calls v (members ?st3 e)) ?st3)"
    using pl assms(4) by (rule emit_plain)
  moreover have "filter (\<lambda>c. fst c = k) (user_calls v (members ?st3 e)) = []"
    using out by (simp add: filter_user_calls)
  ultimately show ?thesis using out by (simp add: h)
qed

theorem unsubscribe_not_counted_witness:
  "User 0 \<notin> set (members (unsubscribe (fst (on ''first'' (User 0) new_emitter))
        (snd (on ''first'' (User 0) (snd (on ''first'' (User 0) new_emitter))))) ''first'') \<and>
   (\<exists>st'. emit 4 (\<lambda>h k v. []) ''first'' (Num 100)
            (unsubscribe (fst (on ''first'' (User 0) new_emitter))
               (snd (on ''first'' (User 0) (snd (on ''first'' (User 0) new_emitter)))))
            = Some st' \<and>
          filter (\<lambda>c. fst c = 0) (drop (length (calls new_emitter)) (calls st')) = [])"
proof -
  have 1: "distinct (members new_emitter ''first'')" by (simp add: members_def new_emitter_def)
  have 2: "\<forall>m \<in> set (members new_emitter ''first''). m \<noteq> User 0 \<longrightarrow> inert (\<lambda>h k v. []) m"
    by (simp add: members_def new_emitter_def)
  have 4: "emit_fuel (unsubscribe (fst (on ''first'' (User 0) new_emitter))
              (snd (on ''first'' (User 0) (snd (on ''first'' (User 0) new_emitter))))) ''first'' \<le> 4"
    by (simp add: emit_fuel_def unsubscribe_def on_def new_emitter_def set_add_def Let_def)
  from unsubscribe_not_counted [OF 1 2 _ 4, of "Num 100"]
  show ?thesis by blast
qed


text \<open>
  C2, as stated: after \<^verbatim>\<open>off(event)\<close>, an unsubscribe function returned before never
  removes a listener, also not one registered after the \<^verbatim>\<open>off\<close>. It fails: the
  function looks the event's set up when it is called, so after \<^verbatim>\<open>on(e, L)\<close>,
  \<^verbatim>\<open>off(e)\<close>, \<^verbatim>\<open>on(e, L)\<close> the first handle removes the second registration.
\<close>

theorem stale_handle_counterexample:
  "members (snd (on ''first'' (User 0) (off ''first'' (snd (on ''first'' (User 0) new_emitter)))))
      ''first'' = [User 0] \<and>
   members (unsubscribe (fst (on ''first'' (User 0) new_emitter))
      (snd (on ''first'' (User 0) (off ''first'' (snd (on ''first'' (User 0) new_emitter))))))
      ''first'' = []"
  by (simp add: members_def unsubscribe_def on_def off_def new_emitter_def set_add_def Let_def)


text \<open>
  C2, amended. After \<^verbatim>\<open>off(event)\<close>, calling an unsubscribe function returned before
  never fails and removes nothing but the function object it is bound to: it leaves the
  state as it is right after \<^verbatim>\<open>off\<close> and whenever that function object is not in
  the event's current set; if the same function has been registered for the event again,
  it removes that registration, and only that one, from the event's set.
\<close>

theorem stale_handle:
  "unsubscribe (e, l) (off e st) = off e st \<and>
   (l \<notin> set (members st' e) \<longrightarrow> unsubscribe (e, l) st' = st') \<and>
   members (unsubscribe (e, l) st') e = remove1 l (members st' e) \<and>
   (sets_apart st' \<and> e' \<noteq> e \<longrightarrow> members (unsubscribe (e, l) st') e' = members st' e')"
  by (simp add: unsubscribe_off unsubscribe_absent members_unsubscribe members_unsubscribe_other)

theorem stale_handle_witness:
  "unsubscribe (''first'', User 0) (off ''first'' (snd (on ''first'' (User 0) new_emitter)))
     = off ''first'' (snd (on ''first'' (User 0) new_emitter)) \<and>
   User 0 \<notin> set (members (snd (on ''second'' (User 2) (snd (on ''first'' (User 1)
       (off ''first'' (snd (on ''first'' (User 0) new_emitter))))))) ''first'') \<and>
   unsubscribe (''first'', User 0) (snd (on ''second'' (User 2) (snd (on ''first'' (User 1)
       (off ''first'' (snd (on ''first'' (User 0) new_emitter)))))))
     = snd (on ''second'' (User 2) (snd (on ''first'' (User 1)
       (off ''first'' (snd (on ''first'' (User 0) new_emitter)))))) \<and>
   members (unsubscribe (''first'', User 0) (snd (on ''second'' (User 2) (snd (on ''first'' (User 1)
       (off ''first'' (snd (on ''first'' (User 0) new_emitter)))))))) ''first'' = [User 1] \<and>
   sets_apart (snd (on ''second'' (User 2) (snd (on ''first'' (User 1)
       (off ''first'' (snd (on ''first'' (User 0) new_emitter))))))) \<and>
   members (unsubscribe (''first'', User 0) (snd (on ''second'' (User 2) (snd (on ''first'' (User 1)
       (off ''first'' (snd (on ''first'' (User 0) new_emitter)))))))) ''second'' = [User 2]"
proof -
  let ?st = "snd (on ''first'' (User 0) new_emitter)"
  let ?st' = "snd (on ''second'' (User 2) (snd (on ''first'' (User 1) (off ''first'' ?st))))"
  have m: "members ?st' ''first'' = [User 1]" and m2: "members ?st' ''second'' = [User 2]"
    by (simp_all add: members_def on_def off_def new_emitter_def set_add_def Let_def)
  from m have a: "User 0 \<notin> set (members ?st' ''first'')" by simp
  have s: "sets_apart ?st'"
    by (intro sets_apart_on sets_apart_off sets_apart_new)
  have d: "''second'' \<noteq> ''first''" by simp
  from stale_handle [of "''first''" "User 0" ?st ?st' "''second''"] a m m2 s d
  show ?thesis by simp
qed







text \<open>
  C3. A listener registered with \<^verbatim>\<open>once\<close> is called at most once, also when
  listeners emit re-entrantly. The adapter calls the listener before it unsubscribes
  itself, so a listener that emits its own event again is called a second time by the
  inner emission: here user function 0, registered once, emits payload 1 when it receives
  payload 0, and one \<^verbatim>\<open>emit\<close> with payload 0 calls it twice.
\<close>

definition reemits :: program where
  "reemits h k v = (if k = 0 \<and> v = Num 0 then [Emit ''first'' (Num 1)] else [])"


theorem once_reentrant_called_twice:
  "members (snd (once ''first'' (User 0) new_emitter)) ''first'' = [Closure 0] \<and>
   closures (snd (once ''first'' (User 0) new_emitter)) 0 = Some (OnceAdapter ''first'' (User 0)) \<and>
   map_option calls (emit 10 reemits ''first'' (Num 0) (snd (once ''first'' (User 0) new_emitter)))
     = Some [(0, Num 0), (0, Num 1)]"
  by (simp add: eval_nat_numeral forEach_Suc run_Cons call_Closure reemits_def members_def
        once_def new_closure_def on_def unsubscribe_def new_emitter_def set_add_def Let_def)












text \<open>
  When both names are one and the same event, its emission meets the success adapter
  first: the promise is fulfilled, and both adapters are gone from the set.
\<close>

lemma takeEither_same_event:
  "map_option (\<lambda>st. (promises st 0, members st ''first''))
     (emit 6 (\<lambda>h k v. []) ''first'' (Num 100) (snd (takeEither ''first'' ''first'' new_emitter)))
   = Some (Some (Fulfilled (Num 100)), [])"
  by (simp add: eval_nat_numeral forEach_Suc call_Closure members_def takeEither_def
        new_promise_def new_closure_def once_def on_def unsubscribe_def resolve_def
        new_emitter_def set_add_def Let_def)

end
